theory Spec2Isabelle
  imports Main "HOL-Library.Word"
begin

section \<open>Variable window bounds (pandas/_libs/window/indexers.pyx)\<close>

text \<open>
  The source file holds one Cython function, \<open>calculate_variable_window_bounds\<close>,
  compiled with \<open>boundscheck=False, wraparound=False\<close>. Index values, window size,
  step size, minimum periods and the contents of the two result arrays are C \<open>int64_t\<close>:
  they are 64-bit words here, with wrapping arithmetic and signed comparison.
  Positions into the arrays (\<open>index_si\<close>, \<open>index_i\<close>, \<open>window_i\<close>, ...) and
  \<open>num_values\<close> are \<open>int64_t\<close> too, but they only ever run between \<open>-1\<close> and
  \<open>num_values\<close>, the length of an array in memory, so their arithmetic cannot wrap:
  they are \<open>int\<close>, and become words when they are stored in \<open>start\<close> and \<open>end\<close>.
\<close>

type_synonym int64 = "64 word"

datatype error = ValueError

subsection \<open>Memory\<close>

text \<open>
  With bounds checks switched off, a read of \<open>index\<close> outside the buffer returns
  whatever lies there, and \<open>np.empty\<close> hands out an array whose contents are whatever
  the allocator left. Both are parameters of the model: \<open>outside\<close> gives the word
  found at a position outside the index buffer, \<open>fresh\<close> the initial contents of an
  uninitialised array.
\<close>

record memory =
  outside :: "int \<Rightarrow> int64"
  fresh :: "nat \<Rightarrow> int64"

definition zero_memory :: memory where
  "zero_memory = \<lparr>outside = (\<lambda>p. 0), fresh = (\<lambda>k. 0)\<rparr>"

definition index_get :: "memory \<Rightarrow> int64 list \<Rightarrow> int \<Rightarrow> int64" where
  "index_get mem index p =
     (if 0 \<le> p \<and> p < int (length index) then index ! nat p else outside mem p)"

subsection \<open>The two forward scans\<close>

text \<open>
  Both inner loops of the source have the same shape:
  \<^verbatim>\<open>
  index_step_i = num_values - 1
  for index_i in range(index_si + 1, num_values):
      if idx_scalar*index[index_i] > idx_scalar*index_step_max:
          index_step_i = index_i - 1
          break
  \<close>
  \<open>find_end\<close> is that loop from position \<open>index_i\<close> on, for the ceiling \<open>index_max\<close>.
\<close>

function find_end :: "memory \<Rightarrow> int64 list \<Rightarrow> int64 \<Rightarrow> int \<Rightarrow> int64 \<Rightarrow> int \<Rightarrow> int" where
  "find_end mem index idx_scalar num_values index_max index_i =
     (if index_i < num_values then
        (if idx_scalar * index_max <s idx_scalar * index_get mem index index_i
         then index_i - 1
         else find_end mem index idx_scalar num_values index_max (index_i + 1))
      else num_values - 1)"
  by pat_completeness auto
termination
  by (relation "measure (\<lambda>(mem, index, idx_scalar, num_values, index_max, index_i).
        nat (num_values - index_i))") auto

declare find_end.simps [simp del]

subsection \<open>The sweep\<close>

record sweep_state =
  start_arr :: "int64 list"
  end_arr :: "int64 list"
  window_i :: int
  next_index_si :: int
  next_index_ei :: int

text \<open>
  One iteration of the \<open>while\<close> loop. A write \<open>xs[k := v]\<close> outside the list leaves
  it unchanged, where the source would write outside the array; \<open>window_i\<close> is shown
  below to stay inside.
\<close>

definition sweep_body ::
  "memory \<Rightarrow> int64 list \<Rightarrow> int64 \<Rightarrow> int \<Rightarrow> int64 \<Rightarrow> int64 \<Rightarrow> sweep_state \<Rightarrow> sweep_state" where
  "sweep_body mem index idx_scalar num_values window_size step_size st =
     (let index_si = next_index_si st;
          start1 = (start_arr st)[nat (window_i st) := word_of_int index_si];
          index_window_max = index_get mem index index_si + idx_scalar * (window_size - 1);
          index_step_max = index_get mem index index_si + idx_scalar * (step_size - 1);
          index_step_i = find_end mem index idx_scalar num_values index_step_max (index_si + 1);
          index_window_i =
            find_end mem index idx_scalar num_values index_window_max (next_index_ei st + 1);
          next_si = index_step_i + 1;
          next_ei = (if next_si > index_window_i + 1 then next_si else index_window_i + 1);
          end1 = (end_arr st)[nat (window_i st) := word_of_int index_window_i]
      in \<lparr>start_arr = start1, end_arr = end1, window_i = window_i st + 1,
          next_index_si = next_si, next_index_ei = next_ei\<rparr>)"

lemma find_end_lower:
  "index_i \<le> num_values \<Longrightarrow>
   index_i - 1 \<le> find_end mem index idx_scalar num_values index_max index_i"
proof (induction mem index idx_scalar num_values index_max index_i rule: find_end.induct)
  case (1 mem index idx_scalar num_values index_max index_i)
  show ?case
  proof (cases "index_i < num_values")
    case True
    then show ?thesis
      using "1.IH" by (subst find_end.simps) auto
  next
    case False
    with "1.prems" show ?thesis
      by (subst find_end.simps) simp
  qed
qed

lemma next_index_ei_sweep_body:
  assumes "next_index_ei st < num_values"
  shows "next_index_ei st
       < next_index_ei (sweep_body mem index idx_scalar num_values window_size step_size st)"
proof -
  have "next_index_ei st
      \<le> find_end mem index idx_scalar num_values
          (index_get mem index (next_index_si st) + idx_scalar * (window_size - 1))
          (next_index_ei st + 1)"
    using find_end_lower [of "next_index_ei st + 1" num_values] assms by simp
  then show ?thesis
    by (simp add: sweep_body_def Let_def)
qed

function sweep ::
  "memory \<Rightarrow> int64 list \<Rightarrow> int64 \<Rightarrow> int \<Rightarrow> int64 \<Rightarrow> int64 \<Rightarrow> sweep_state \<Rightarrow> sweep_state" where
  "sweep mem index idx_scalar num_values window_size step_size st =
     (if next_index_ei st < num_values
      then sweep mem index idx_scalar num_values window_size step_size
             (sweep_body mem index idx_scalar num_values window_size step_size st)
      else st)"
  by pat_completeness auto
termination
proof (relation "measure (\<lambda>(mem, index, idx_scalar, num_values, window_size, step_size, st).
        nat (num_values - next_index_ei st))", goal_cases)
  case 1
  show ?case by simp
next
  case (2 mem index idx_scalar num_values window_size step_size st)
  then show ?case
    using next_index_ei_sweep_body [of st num_values mem index idx_scalar window_size step_size]
    by simp
qed

declare sweep.simps [simp del]

subsection \<open>The function\<close>

text \<open>Boolean-mask selection of a numpy array: \<open>xs[msk]\<close>.\<close>

definition select :: "bool list \<Rightarrow> 'a list \<Rightarrow> 'a list" where
  "select msk xs = map snd (filter fst (zip msk xs))"

text \<open>
  \<open>closed\<close> is \<open>None\<close> or a string; \<open>step_size_obj\<close> and \<open>min_periods_obj\<close> are
  \<open>None\<close> or an integer that is converted to \<open>int64_t\<close>; \<open>center\<close> is unused.
  An object that is no integer, or an integer that does not fit \<open>int64_t\<close>, makes the
  conversion (lines 76--77) raise \<open>TypeError\<close> or \<open>OverflowError\<close>; the types of the
  model leave such calls out, so every statement below is about calls whose
  \<open>window_size\<close>, \<open>step_size\<close> and \<open>min_periods\<close> are \<open>int64\<close> values (or \<open>None\<close>).
  \<open>np.empty\<close> raises \<open>ValueError\<close> for a negative length. The test
  \<open>min_periods is not None\<close> of the source is on the converted C integer and is always
  true, so the second mask is always applied.
\<close>

definition calculate_variable_window_bounds ::
  "memory \<Rightarrow> int \<Rightarrow> int64 \<Rightarrow> int64 option \<Rightarrow> int64 option \<Rightarrow> bool option \<Rightarrow> string option
     \<Rightarrow> int64 list \<Rightarrow> error + (int64 list \<times> int64 list)" where
  "calculate_variable_window_bounds mem num_values window_size step_size_obj min_periods_obj
      center closed index =
     (let closed1 = (case closed of None \<Rightarrow> ''left'' | Some c \<Rightarrow> c);
          right_open = (if closed1 \<notin> set [''right'', ''both''] then True else False);
          left_open = (if closed1 \<notin> set [''left'', ''both''] then True else False);
          idx_scalar = (if index_get mem index (num_values - 1) <s index_get mem index 0
                        then - 1 else 1);
          min_periods = (case min_periods_obj of None \<Rightarrow> 0 | Some m \<Rightarrow> m);
          step_size = (case step_size_obj of None \<Rightarrow> 1 | Some s \<Rightarrow> s)
      in if num_values < 0 then Inl ValueError
         else
           let start0 = replicate (nat num_values) (- 1);
               end0 = map (fresh mem) [0..<nat num_values]
           in if num_values < 1 then Inr (start0, end0)
              else
                let st = sweep mem index idx_scalar num_values window_size step_size
                           \<lparr>start_arr = start0, end_arr = end0, window_i = 0,
                            next_index_si = 0, next_index_ei = 0\<rparr>;
                    valid_idx0 = map2 (\<lambda>s e. 0 \<le>s s \<and> s \<le>s e) (start_arr st) (end_arr st);
                    valid_idx = map2 (\<and>) valid_idx0
                                  (map2 (\<lambda>s e. min_periods \<le>s e - s + 1)
                                     (start_arr st) (end_arr st));
                    start2 = (if left_open then map (\<lambda>s. s - 1) (start_arr st)
                              else start_arr st);
                    end2 = (if right_open then map (\<lambda>e. e + 1) (end_arr st)
                            else end_arr st)
                in Inr (select valid_idx start2, select valid_idx end2))"

section \<open>Names for the parts of a call\<close>

text \<open>
  The definitions of this section name intermediate values of
  \<open>calculate_variable_window_bounds\<close>, so that properties can speak about them;
  \<open>calc_unfold\<close> below shows that the function computes its result from them.
  First the defaults and the two flags (lines 62--69 and 76--77 of the source).
\<close>

definition closed_of :: "string option \<Rightarrow> string" where
  "closed_of closed = (case closed of None \<Rightarrow> ''left'' | Some c \<Rightarrow> c)"

definition right_open_of :: "string option \<Rightarrow> bool" where
  "right_open_of closed = (closed_of closed \<notin> set [''right'', ''both''])"

definition left_open_of :: "string option \<Rightarrow> bool" where
  "left_open_of closed = (closed_of closed \<notin> set [''left'', ''both''])"

definition step_size_of :: "int64 option \<Rightarrow> int64" where
  "step_size_of step_size_obj = (case step_size_obj of None \<Rightarrow> 1 | Some s \<Rightarrow> s)"

definition min_periods_of :: "int64 option \<Rightarrow> int64" where
  "min_periods_of min_periods_obj = (case min_periods_obj of None \<Rightarrow> 0 | Some m \<Rightarrow> m)"

text \<open>
  The detected direction (lines 72--73), the state before the first iteration
  (lines 79--81 and 90--92), the state after the loop, and the state after \<open>j\<close>
  iterations of the loop body.
\<close>

definition direction :: "memory \<Rightarrow> int64 list \<Rightarrow> int \<Rightarrow> int64" where
  "direction mem index num_values =
     (if index_get mem index (num_values - 1) <s index_get mem index 0 then - 1 else 1)"

definition initial_state :: "memory \<Rightarrow> int \<Rightarrow> sweep_state" where
  "initial_state mem num_values =
     \<lparr>start_arr = replicate (nat num_values) (- 1),
      end_arr = map (fresh mem) [0..<nat num_values],
      window_i = 0, next_index_si = 0, next_index_ei = 0\<rparr>"

definition swept :: "memory \<Rightarrow> int \<Rightarrow> int64 \<Rightarrow> int64 option \<Rightarrow> int64 list \<Rightarrow> sweep_state" where
  "swept mem num_values window_size step_size_obj index =
     sweep mem index (direction mem index num_values) num_values window_size
       (step_size_of step_size_obj) (initial_state mem num_values)"

definition iterations ::
  "memory \<Rightarrow> int \<Rightarrow> int64 \<Rightarrow> int64 option \<Rightarrow> int64 list \<Rightarrow> nat \<Rightarrow> sweep_state" where
  "iterations mem num_values window_size step_size_obj index j =
     (sweep_body mem index (direction mem index num_values) num_values window_size
        (step_size_of step_size_obj) ^^ j) (initial_state mem num_values)"

text \<open>
  The mask of the source (lines 126--130) at one slot.
\<close>

definition valid_slot :: "int64 \<Rightarrow> int64 \<times> int64 \<Rightarrow> bool" where
  "valid_slot min_periods slot =
     ((0 \<le>s fst slot \<and> fst slot \<le>s snd slot) \<and> min_periods \<le>s snd slot - fst slot + 1)"

text \<open>
  The validity test in the specification's words, on the signed values of a slot:
  \<open>start \<ge> 0\<close>, \<open>start \<le> end\<close> and \<open>end - start + 1 \<ge> min_periods\<close>, the count
  taken in the integers. The source's test is \<open>valid_slot\<close>, whose count wraps.
\<close>

definition spec_valid :: "int64 \<Rightarrow> int64 \<times> int64 \<Rightarrow> bool" where
  "spec_valid min_periods slot \<longleftrightarrow>
     0 \<le> sint (fst slot) \<and> sint (fst slot) \<le> sint (snd slot) \<and>
     sint min_periods \<le> sint (snd slot) - sint (fst slot) + 1"

text \<open>
  The test of both scans: the value at position \<open>index_i\<close> lies beyond the ceiling
  of a window (or step) of width \<open>span\<close> that starts at position \<open>index_si\<close>.
\<close>

definition beyond :: "memory \<Rightarrow> int64 list \<Rightarrow> int64 \<Rightarrow> int64 \<Rightarrow> int \<Rightarrow> int \<Rightarrow> bool" where
  "beyond mem index idx_scalar span index_si index_i \<longleftrightarrow>
     idx_scalar * (index_get mem index index_si + idx_scalar * (span - 1))
       <s idx_scalar * index_get mem index index_i"


text \<open>
  The invariant of the loop: the arrays keep their length, the cursors are ordered and
  inside the index, the slots below \<open>window_i\<close> hold positions
  \<open>0 \<le> start \<le> end < num_values\<close>, and the slots from \<open>window_i\<close> on still hold
  the sentinel.
\<close>

definition sweep_inv :: "int \<Rightarrow> sweep_state \<Rightarrow> bool" where
  "sweep_inv num_values st \<longleftrightarrow>
     length (start_arr st) = nat num_values \<and> length (end_arr st) = nat num_values \<and>
     0 \<le> window_i st \<and> window_i st \<le> next_index_ei st \<and>
     0 \<le> next_index_si st \<and> next_index_si st \<le> next_index_ei st \<and>
     next_index_ei st \<le> num_values \<and>
     (\<forall>k < nat (window_i st). \<exists>s e. start_arr st ! k = word_of_int s \<and>
          end_arr st ! k = word_of_int e \<and> 0 \<le> s \<and> s \<le> e \<and> e < num_values) \<and>
     (\<forall>k. nat (window_i st) \<le> k \<and> k < nat num_values \<longrightarrow> start_arr st ! k = - 1)"

text \<open>
  Two states agree when they differ at most in the part of \<open>end\<close> that has not
  been written.
\<close>

definition agree :: "sweep_state \<Rightarrow> sweep_state \<Rightarrow> bool" where
  "agree st st' \<longleftrightarrow>
     start_arr st' = start_arr st \<and> window_i st' = window_i st \<and>
     next_index_si st' = next_index_si st \<and> next_index_ei st' = next_index_ei st \<and>
     length (end_arr st') = length (end_arr st) \<and>
     (\<forall>k < nat (window_i st). end_arr st' ! k = end_arr st ! k)"

section \<open>The sweep keeps its invariant\<close>

lemma find_end_upper:
  "find_end mem index idx_scalar num_values index_max index_i \<le> num_values - 1"
proof (induction mem index idx_scalar num_values index_max index_i rule: find_end.induct)
  case (1 mem index idx_scalar num_values index_max index_i)
  show ?case
  proof (cases "index_i < num_values")
    case True
    then show ?thesis
      using "1.IH" by (subst find_end.simps) auto
  next
    case False
    then show ?thesis
      by (subst find_end.simps) simp
  qed
qed

lemma sweep_body_fields:
  "window_i (sweep_body mem index idx_scalar num_values window_size step_size st) = window_i st + 1"
  "next_index_si (sweep_body mem index idx_scalar num_values window_size step_size st) =
     find_end mem index idx_scalar num_values
       (index_get mem index (next_index_si st) + idx_scalar * (step_size - 1))
       (next_index_si st + 1) + 1"
  "next_index_ei (sweep_body mem index idx_scalar num_values window_size step_size st) =
     max (next_index_si (sweep_body mem index idx_scalar num_values window_size step_size st))
       (find_end mem index idx_scalar num_values
         (index_get mem index (next_index_si st) + idx_scalar * (window_size - 1))
         (next_index_ei st + 1) + 1)"
  "start_arr (sweep_body mem index idx_scalar num_values window_size step_size st) =
     (start_arr st)[nat (window_i st) := word_of_int (next_index_si st)]"
  "end_arr (sweep_body mem index idx_scalar num_values window_size step_size st) =
     (end_arr st)[nat (window_i st) := word_of_int
        (find_end mem index idx_scalar num_values
         (index_get mem index (next_index_si st) + idx_scalar * (window_size - 1))
         (next_index_ei st + 1))]"
  by (simp_all add: sweep_body_def Let_def max_def)

lemma sweep_inv_body:
  assumes inv: "sweep_inv num_values st" and lt: "next_index_ei st < num_values"
  shows "sweep_inv num_values (sweep_body mem index idx_scalar num_values window_size step_size st)"
proof -
  let ?st' = "sweep_body mem index idx_scalar num_values window_size step_size st"
  let ?wi = "find_end mem index idx_scalar num_values
         (index_get mem index (next_index_si st) + idx_scalar * (window_size - 1))
         (next_index_ei st + 1)"
  let ?si = "find_end mem index idx_scalar num_values
       (index_get mem index (next_index_si st) + idx_scalar * (step_size - 1))
       (next_index_si st + 1)"
  from inv have len: "length (start_arr st) = nat num_values" "length (end_arr st) = nat num_values"
    and w: "0 \<le> window_i st" "window_i st \<le> next_index_ei st"
    and s: "0 \<le> next_index_si st" "next_index_si st \<le> next_index_ei st"
    and written: "\<forall>k < nat (window_i st). \<exists>s e. start_arr st ! k = word_of_int s \<and>
          end_arr st ! k = word_of_int e \<and> 0 \<le> s \<and> s \<le> e \<and> e < num_values"
    and unwritten: "\<forall>k. nat (window_i st) \<le> k \<and> k < nat num_values \<longrightarrow> start_arr st ! k = - 1"
    by (simp_all add: sweep_inv_def)
  have wi_lo: "next_index_ei st \<le> ?wi"
    using find_end_lower [of "next_index_ei st + 1" num_values] lt by simp
  have wi_hi: "?wi \<le> num_values - 1" by (rule find_end_upper)
  have si_lo: "next_index_si st \<le> ?si"
    using find_end_lower [of "next_index_si st + 1" num_values] lt s by simp
  have si_hi: "?si \<le> num_values - 1" by (rule find_end_upper)
  have wlt: "nat (window_i st) < nat num_values" using w lt by simp
  have "\<exists>s e. start_arr ?st' ! k = word_of_int s \<and> end_arr ?st' ! k = word_of_int e \<and>
           0 \<le> s \<and> s \<le> e \<and> e < num_values" if "k < nat (window_i ?st')" for k
  proof (cases "k = nat (window_i st)")
    case True
    have "start_arr ?st' ! k = word_of_int (next_index_si st)"
      using True wlt len by (simp add: sweep_body_fields)
    moreover have "end_arr ?st' ! k = word_of_int ?wi"
      using True wlt len by (simp add: sweep_body_fields)
    ultimately show ?thesis
      using s wi_lo wi_hi by (intro exI [of _ "next_index_si st"] exI [of _ ?wi]) simp
  next
    case False
    with that w have "k < nat (window_i st)" by (simp add: sweep_body_fields)
    with written False show ?thesis by (simp add: sweep_body_fields)
  qed
  moreover have "start_arr ?st' ! k = - 1" if "nat (window_i ?st') \<le> k \<and> k < nat num_values" for k
  proof -
    from that w have "nat (window_i st) < k" "k < nat num_values"
      by (auto simp add: sweep_body_fields)
    with unwritten show ?thesis by (simp add: sweep_body_fields)
  qed
  ultimately show ?thesis
    unfolding sweep_inv_def
    using len w s wi_lo wi_hi si_lo si_hi by (simp add: sweep_body_fields)
qed

lemma sweep_inv_sweep:
  "sweep_inv num_values st \<Longrightarrow>
   sweep_inv num_values (sweep mem index idx_scalar num_values window_size step_size st)"
proof (induction mem index idx_scalar num_values window_size step_size st rule: sweep.induct)
  case (1 mem index idx_scalar num_values window_size step_size st)
  show ?case
  proof (cases "next_index_ei st < num_values")
    case True
    then show ?thesis
      using "1.IH" "1.prems" sweep_inv_body by (subst sweep.simps) simp
  next
    case False
    then show ?thesis
      using "1.prems" by (subst sweep.simps) simp
  qed
qed

lemma sweep_exit:
  "num_values \<le> next_index_ei (sweep mem index idx_scalar num_values window_size step_size st)"
proof (induction mem index idx_scalar num_values window_size step_size st rule: sweep.induct)
  case (1 mem index idx_scalar num_values window_size step_size st)
  show ?case
  proof (cases "next_index_ei st < num_values")
    case True
    then show ?thesis
      using "1.IH" by (subst sweep.simps) simp
  next
    case False
    then show ?thesis
      by (subst sweep.simps) simp
  qed
qed

lemma sweep_initial_empty:
  "num_values \<le> 0 \<Longrightarrow>
   sweep mem index idx_scalar num_values window_size step_size (initial_state mem' num_values)
     = initial_state mem' num_values"
  by (subst sweep.simps) (simp add: initial_state_def)

lemma sweep_inv_initial: "0 \<le> num_values \<Longrightarrow> sweep_inv num_values (initial_state mem num_values)"
  by (simp add: sweep_inv_def initial_state_def)

lemma sweep_inv_swept:
  "0 \<le> num_values \<Longrightarrow> sweep_inv num_values (swept mem num_values window_size step_size_obj index)"
  unfolding swept_def by (intro sweep_inv_sweep sweep_inv_initial)

lemma next_index_si_sweep_body:
  assumes "sweep_inv num_values st" "next_index_ei st < num_values"
  shows "next_index_si st
       < next_index_si (sweep_body mem index idx_scalar num_values window_size step_size st)"
proof -
  from assms have "next_index_si st + 1 \<le> num_values"
    by (simp add: sweep_inv_def)
  from find_end_lower [OF this] show ?thesis
    by (simp add: sweep_body_fields)
qed

lemma sweep_funpow:
  "sweep_inv num_values st \<Longrightarrow>
   \<exists>k. int k \<le> num_values - next_index_ei st \<and>
     sweep mem index idx_scalar num_values window_size step_size st =
       (sweep_body mem index idx_scalar num_values window_size step_size ^^ k) st \<and>
     (\<forall>j<k. let s = (sweep_body mem index idx_scalar num_values window_size step_size ^^ j) st
        in sweep_inv num_values s \<and> next_index_ei s < num_values \<and> window_i s = window_i st + int j)"
proof (induction mem index idx_scalar num_values window_size step_size st rule: sweep.induct)
  case (1 mem index idx_scalar num_values window_size step_size st)
  let ?body = "sweep_body mem index idx_scalar num_values window_size step_size"
  from "1.prems" have le: "next_index_ei st \<le> num_values"
    by (simp add: sweep_inv_def)
  show ?case
  proof (cases "next_index_ei st < num_values")
    case False
    with le have "sweep mem index idx_scalar num_values window_size step_size st = (?body ^^ 0) st"
      by (subst sweep.simps) simp
    with le show ?thesis
      by (intro exI [of _ 0]) simp
  next
    case True
    have inv': "sweep_inv num_values (?body st)"
      using "1.prems" True by (rule sweep_inv_body)
    from "1.IH" [OF True inv'] obtain k where
      k: "int k \<le> num_values - next_index_ei (?body st)"
      and run: "sweep mem index idx_scalar num_values window_size step_size (?body st) =
         (?body ^^ k) (?body st)"
      and each: "\<forall>j<k. let s = (?body ^^ j) (?body st)
        in sweep_inv num_values s \<and> next_index_ei s < num_values \<and>
           window_i s = window_i (?body st) + int j"
      by blast
    have progress: "next_index_ei st < next_index_ei (?body st)"
      using True by (rule next_index_ei_sweep_body)
    have "int (Suc k) \<le> num_values - next_index_ei st"
      using k progress by simp
    moreover have "sweep mem index idx_scalar num_values window_size step_size st =
        (?body ^^ Suc k) st"
      using True run by (subst sweep.simps) (simp add: funpow_swap1)
    moreover have "\<forall>j<Suc k. let s = (?body ^^ j) st
        in sweep_inv num_values s \<and> next_index_ei s < num_values \<and> window_i s = window_i st + int j"
    proof (intro allI impI)
      fix j assume "j < Suc k"
      show "let s = (?body ^^ j) st
        in sweep_inv num_values s \<and> next_index_ei s < num_values \<and> window_i s = window_i st + int j"
      proof (cases j)
        case 0
        with "1.prems" True show ?thesis by simp
      next
        case (Suc i)
        with \<open>j < Suc k\<close> have "i < k" by simp
        with each have "let s = (?body ^^ i) (?body st)
          in sweep_inv num_values s \<and> next_index_ei s < num_values \<and>
             window_i s = window_i (?body st) + int i"
          by blast
        with Suc show ?thesis
          by (simp add: funpow_swap1 Let_def sweep_body_fields)
      qed
    qed
    ultimately show ?thesis by blast
  qed
qed

section \<open>The result in closed form\<close>

lemma select_map2_fst:
  "select (map2 P xs ys) (map f xs) = map (\<lambda>p. f (fst p)) (filter (\<lambda>p. P (fst p) (snd p)) (zip xs ys))"
  by (induction xs ys rule: list_induct2') (simp_all add: select_def)

lemma select_map2_snd:
  "select (map2 P xs ys) (map g ys) = map (\<lambda>p. g (snd p)) (filter (\<lambda>p. P (fst p) (snd p)) (zip xs ys))"
  by (induction xs ys rule: list_induct2') (simp_all add: select_def)

lemma map2_conj:
  "map2 (\<and>) (map2 A xs ys) (map2 B xs ys) = map2 (\<lambda>x y. A x y \<and> B x y) xs ys"
  by (induction xs ys rule: list_induct2') simp_all

lemma calc_unfold:
  assumes "0 \<le> num_values"
  shows "calculate_variable_window_bounds mem num_values window_size step_size_obj
           min_periods_obj center closed index =
         Inr (map (\<lambda>p. if left_open_of closed then fst p - 1 else fst p)
                (filter (valid_slot (min_periods_of min_periods_obj))
                   (zip (start_arr (swept mem num_values window_size step_size_obj index))
                        (end_arr (swept mem num_values window_size step_size_obj index)))),
              map (\<lambda>p. if right_open_of closed then snd p + 1 else snd p)
                (filter (valid_slot (min_periods_of min_periods_obj))
                   (zip (start_arr (swept mem num_values window_size step_size_obj index))
                        (end_arr (swept mem num_values window_size step_size_obj index)))))"
proof (cases "num_values < 1")
  case True
  with assms have zero: "num_values = 0" by simp
  then have "swept mem num_values window_size step_size_obj index = initial_state mem 0"
    by (simp add: swept_def sweep_initial_empty)
  with zero show ?thesis
    by (simp add: calculate_variable_window_bounds_def initial_state_def)
next
  case False
  let ?st = "swept mem num_values window_size step_size_obj index"
  let ?P = "\<lambda>s e. (0 \<le>s s \<and> s \<le>s e) \<and> min_periods_of min_periods_obj \<le>s e - s + 1"
  have filt: "(\<lambda>p. ?P (fst p) (snd p)) = valid_slot (min_periods_of min_periods_obj)"
    by (simp add: valid_slot_def fun_eq_iff)
  have s1: "select (map2 ?P (start_arr ?st) (end_arr ?st)) (map f (start_arr ?st)) =
      map (\<lambda>p. f (fst p)) (filter (valid_slot (min_periods_of min_periods_obj))
         (zip (start_arr ?st) (end_arr ?st)))" for f
    unfolding filt [symmetric] by (rule select_map2_fst)
  have e1: "select (map2 ?P (start_arr ?st) (end_arr ?st)) (map g (end_arr ?st)) =
      map (\<lambda>p. g (snd p)) (filter (valid_slot (min_periods_of min_periods_obj))
         (zip (start_arr ?st) (end_arr ?st)))" for g
    unfolding filt [symmetric] by (rule select_map2_snd)
  have "calculate_variable_window_bounds mem num_values window_size step_size_obj
           min_periods_obj center closed index =
        Inr (select (map2 ?P (start_arr ?st) (end_arr ?st))
               (map (\<lambda>s. if left_open_of closed then s - 1 else s) (start_arr ?st)),
             select (map2 ?P (start_arr ?st) (end_arr ?st))
               (map (\<lambda>e. if right_open_of closed then e + 1 else e) (end_arr ?st)))"
    using False assms
    by (simp add: calculate_variable_window_bounds_def Let_def map2_conj swept_def direction_def
        initial_state_def step_size_of_def min_periods_of_def left_open_of_def right_open_of_def
        closed_of_def del: upt_Suc)
  then show ?thesis
    by (simp only: s1 e1)
qed

lemma not_valid_sentinel: "\<not> valid_slot min_periods (- 1, e)"
  by (simp add: valid_slot_def word_sle_eq)

lemma unwritten_invalid:
  assumes inv: "sweep_inv num_values st"
  shows "filter (valid_slot min_periods) (zip (start_arr st) (end_arr st)) =
         filter (valid_slot min_periods) (take (nat (window_i st)) (zip (start_arr st) (end_arr st)))"
proof -
  let ?zs = "zip (start_arr st) (end_arr st)"
  let ?w = "nat (window_i st)"
  from inv have len: "length (start_arr st) = nat num_values" "length (end_arr st) = nat num_values"
    and unwritten: "\<forall>k. ?w \<le> k \<and> k < nat num_values \<longrightarrow> start_arr st ! k = - 1"
    by (simp_all add: sweep_inv_def)
  have "\<not> valid_slot min_periods slot" if "slot \<in> set (drop ?w ?zs)" for slot
  proof -
    from that obtain i where i: "i < length (drop ?w ?zs)" "slot = drop ?w ?zs ! i"
      by (auto simp: in_set_conv_nth)
    then have k: "?w + i < nat num_values" using len by simp
    with i len have "slot = (start_arr st ! (?w + i), end_arr st ! (?w + i))"
      by simp
    moreover from unwritten k have "start_arr st ! (?w + i) = - 1" by simp
    ultimately show ?thesis by (simp add: not_valid_sentinel)
  qed
  then have "filter (valid_slot min_periods) (drop ?w ?zs) = []"
    by (simp add: filter_empty_conv)
  moreover have "filter (valid_slot min_periods) ?zs =
      filter (valid_slot min_periods) (take ?w ?zs) @ filter (valid_slot min_periods) (drop ?w ?zs)"
    by (simp flip: filter_append)
  ultimately show ?thesis by simp
qed

section \<open>What the result depends on\<close>

text \<open>
  The sweep looks at the index only through the test \<open>beyond\<close>, and never reads
  \<open>end\<close>: two calls whose tests agree return the same bounds.
\<close>

lemma find_end_cong:
  "\<forall>p. index_i \<le> p \<and> p < num_values \<longrightarrow>
      (idx_scalar * index_max <s idx_scalar * index_get mem index p) =
      (idx_scalar' * index_max' <s idx_scalar' * index_get mem' index' p) \<Longrightarrow>
   find_end mem index idx_scalar num_values index_max index_i =
   find_end mem' index' idx_scalar' num_values index_max' index_i"
proof (induction mem index idx_scalar num_values index_max index_i rule: find_end.induct)
  case (1 mem index idx_scalar num_values index_max index_i)
  note unfold = find_end.simps [of mem index idx_scalar num_values index_max index_i]
    find_end.simps [of mem' index' idx_scalar' num_values index_max' index_i]
  show ?case
  proof (cases "index_i < num_values")
    case False
    then show ?thesis by (simp add: unfold)
  next
    case True
    with "1.prems" have here:
      "(idx_scalar * index_max <s idx_scalar * index_get mem index index_i) =
       (idx_scalar' * index_max' <s idx_scalar' * index_get mem' index' index_i)"
      by simp
    show ?thesis
    proof (cases "idx_scalar * index_max <s idx_scalar * index_get mem index index_i")
      case True
      with here \<open>index_i < num_values\<close> show ?thesis by (simp add: unfold)
    next
      case False
      moreover from "1.prems" have "\<forall>p. index_i + 1 \<le> p \<and> p < num_values \<longrightarrow>
         (idx_scalar * index_max <s idx_scalar * index_get mem index p) =
         (idx_scalar' * index_max' <s idx_scalar' * index_get mem' index' p)"
        by simp
      ultimately show ?thesis
        using "1.IH" here \<open>index_i < num_values\<close> by (simp add: unfold)
    qed
  qed
qed

lemma sweep_body_agree:
  assumes ag: "agree st st'" and inv: "sweep_inv num_values st"
    and lt: "next_index_ei st < num_values"
    and cw: "\<forall>si p. 0 \<le> si \<and> si < p \<and> p < num_values \<longrightarrow>
      beyond mem index idx_scalar window_size si p =
      beyond mem' index' idx_scalar' window_size' si p"
    and cs: "\<forall>si p. 0 \<le> si \<and> si < p \<and> p < num_values \<longrightarrow>
      beyond mem index idx_scalar step_size si p =
      beyond mem' index' idx_scalar' step_size' si p"
  shows "agree (sweep_body mem index idx_scalar num_values window_size step_size st)
           (sweep_body mem' index' idx_scalar' num_values window_size' step_size' st')"
proof -
  from ag have eq: "start_arr st' = start_arr st" "window_i st' = window_i st"
      "next_index_si st' = next_index_si st" "next_index_ei st' = next_index_ei st"
      "length (end_arr st') = length (end_arr st)"
    and below: "\<forall>k < nat (window_i st). end_arr st' ! k = end_arr st ! k"
    by (simp_all add: agree_def)
  from inv have len: "length (end_arr st) = nat num_values"
    and w: "0 \<le> window_i st" "window_i st \<le> next_index_ei st"
    and s: "0 \<le> next_index_si st" "next_index_si st \<le> next_index_ei st"
    by (simp_all add: sweep_inv_def)
  have step: "find_end mem index idx_scalar num_values
       (index_get mem index (next_index_si st) + idx_scalar * (step_size - 1))
       (next_index_si st + 1) =
     find_end mem' index' idx_scalar' num_values
       (index_get mem' index' (next_index_si st) + idx_scalar' * (step_size' - 1))
       (next_index_si st + 1)"
    using cs s by (intro find_end_cong) (simp add: beyond_def)
  have win: "find_end mem index idx_scalar num_values
       (index_get mem index (next_index_si st) + idx_scalar * (window_size - 1))
       (next_index_ei st + 1) =
     find_end mem' index' idx_scalar' num_values
       (index_get mem' index' (next_index_si st) + idx_scalar' * (window_size' - 1))
       (next_index_ei st + 1)"
    using cw s by (intro find_end_cong) (simp add: beyond_def)
  have wlt: "nat (window_i st) < length (end_arr st)"
    using w lt len by simp
  have "xs' [nat (window_i st) := v] ! k = (end_arr st) [nat (window_i st) := v] ! k"
    if "k < nat (window_i st + 1)" and "xs' = end_arr st'" for k v xs'
  proof (cases "k = nat (window_i st)")
    case True
    with wlt eq that show ?thesis by simp
  next
    case False
    with that w have "k < nat (window_i st)" by auto
    with below False that show ?thesis by simp
  qed
  then show ?thesis
    by (simp add: agree_def sweep_body_fields eq step win)
qed

lemma sweep_agree:
  assumes cw: "\<forall>si p. 0 \<le> si \<and> si < p \<and> p < num_values \<longrightarrow>
      beyond mem index idx_scalar window_size si p =
      beyond mem' index' idx_scalar' window_size' si p"
    and cs: "\<forall>si p. 0 \<le> si \<and> si < p \<and> p < num_values \<longrightarrow>
      beyond mem index idx_scalar step_size si p =
      beyond mem' index' idx_scalar' step_size' si p"
  shows "agree st st' \<Longrightarrow> sweep_inv num_values st \<Longrightarrow>
     agree (sweep mem index idx_scalar num_values window_size step_size st)
           (sweep mem' index' idx_scalar' num_values window_size' step_size' st')"
  using cw cs
proof (induction mem index idx_scalar num_values window_size step_size st arbitrary: st'
    rule: sweep.induct)
  case (1 mem index idx_scalar num_values window_size step_size st)
  from "1.prems"(1) have ei: "next_index_ei st' = next_index_ei st"
    by (simp add: agree_def)
  note unfold = sweep.simps [of mem index idx_scalar num_values window_size step_size st]
    sweep.simps [of mem' index' idx_scalar' num_values window_size' step_size' st']
  show ?case
  proof (cases "next_index_ei st < num_values")
    case False
    with "1.prems"(1) ei show ?thesis by (simp add: unfold)
  next
    case True
    have "agree (sweep_body mem index idx_scalar num_values window_size step_size st)
           (sweep_body mem' index' idx_scalar' num_values window_size' step_size' st')"
      using "1.prems" True by (intro sweep_body_agree)
    moreover have "sweep_inv num_values
        (sweep_body mem index idx_scalar num_values window_size step_size st)"
      using "1.prems"(2) True by (rule sweep_inv_body)
    ultimately show ?thesis
      using "1.IH" [OF True] "1.prems"(3,4) True ei by (simp add: unfold)
  qed
qed

lemma agree_initial: "agree (initial_state mem num_values) (initial_state mem' num_values)"
  by (simp add: agree_def initial_state_def)

lemma filter_zip_cong:
  "length ys = length ys' \<Longrightarrow>
   \<forall>k. k < length xs \<and> k < length ys \<and> (P (xs ! k, ys ! k) \<or> P (xs ! k, ys' ! k))
       \<longrightarrow> ys ! k = ys' ! k \<Longrightarrow>
   filter P (zip xs ys) = filter P (zip xs ys')"
proof (induction xs arbitrary: ys ys')
  case Nil
  then show ?case by simp
next
  case (Cons x xs)
  show ?case
  proof (cases ys)
    case Nil
    with Cons.prems show ?thesis by simp
  next
    case ys: (Cons y zs)
    with Cons.prems(1) obtain y' zs' where ys': "ys' = y' # zs'" and len: "length zs = length zs'"
      by (cases ys') auto
    from Cons.prems(2) [rule_format, of 0] ys ys'
    have head: "P (x, y) \<or> P (x, y') \<Longrightarrow> y = y'" by simp
    have tail: "\<forall>k. k < length xs \<and> k < length zs \<and> (P (xs ! k, zs ! k) \<or> P (xs ! k, zs' ! k))
       \<longrightarrow> zs ! k = zs' ! k"
    proof (intro allI impI)
      fix k assume "k < length xs \<and> k < length zs \<and> (P (xs ! k, zs ! k) \<or> P (xs ! k, zs' ! k))"
      with Cons.prems(2) [rule_format, of "Suc k"] ys ys' show "zs ! k = zs' ! k" by simp
    qed
    have "filter P (zip xs zs) = filter P (zip xs zs')"
      using len tail by (rule Cons.IH)
    with head ys ys' show ?thesis by auto
  qed
qed

lemma agree_slots:
  assumes ag: "agree st st'" and inv: "sweep_inv num_values st"
  shows "filter (valid_slot min_periods) (zip (start_arr st') (end_arr st')) =
         filter (valid_slot min_periods) (zip (start_arr st) (end_arr st))"
proof -
  from ag have eq: "start_arr st' = start_arr st" "length (end_arr st') = length (end_arr st)"
    and below: "\<forall>k < nat (window_i st). end_arr st' ! k = end_arr st ! k"
    by (simp_all add: agree_def)
  from inv have len: "length (start_arr st) = nat num_values" "length (end_arr st) = nat num_values"
    and unwritten: "\<forall>k. nat (window_i st) \<le> k \<and> k < nat num_values \<longrightarrow> start_arr st ! k = - 1"
    by (simp_all add: sweep_inv_def)
  have "end_arr st' ! k = end_arr st ! k"
    if "k < length (start_arr st)" and
      "valid_slot min_periods (start_arr st ! k, end_arr st' ! k) \<or>
       valid_slot min_periods (start_arr st ! k, end_arr st ! k)" for k
  proof (cases "k < nat (window_i st)")
    case True
    with below show ?thesis by simp
  next
    case False
    with unwritten that(1) len have "start_arr st ! k = - 1" by simp
    with that(2) show ?thesis by (simp add: not_valid_sentinel)
  qed
  then show ?thesis
    unfolding eq by (intro filter_zip_cong) (auto simp: eq)
qed

lemma calc_cong:
  assumes n: "0 \<le> num_values"
    and cw: "\<forall>si p. 0 \<le> si \<and> si < p \<and> p < num_values \<longrightarrow>
      beyond mem index (direction mem index num_values) window_size si p =
      beyond mem' index' (direction mem' index' num_values) window_size' si p"
    and cs: "\<forall>si p. 0 \<le> si \<and> si < p \<and> p < num_values \<longrightarrow>
      beyond mem index (direction mem index num_values) (step_size_of step_size_obj) si p =
      beyond mem' index' (direction mem' index' num_values) (step_size_of step_size_obj') si p"
  shows "calculate_variable_window_bounds mem' num_values window_size' step_size_obj'
           min_periods_obj center' closed index' =
         calculate_variable_window_bounds mem num_values window_size step_size_obj
           min_periods_obj center closed index"
proof -
  have "agree (swept mem num_values window_size step_size_obj index)
          (swept mem' num_values window_size' step_size_obj' index')"
    unfolding swept_def using cw cs agree_initial sweep_inv_initial [OF n]
    by (rule sweep_agree)
  then have "filter (valid_slot (min_periods_of min_periods_obj))
       (zip (start_arr (swept mem' num_values window_size' step_size_obj' index'))
            (end_arr (swept mem' num_values window_size' step_size_obj' index'))) =
     filter (valid_slot (min_periods_of min_periods_obj))
       (zip (start_arr (swept mem num_values window_size step_size_obj index))
            (end_arr (swept mem num_values window_size step_size_obj index)))"
    using sweep_inv_swept [OF n] by (rule agree_slots)
  then show ?thesis
    by (simp add: calc_unfold [OF n])
qed

lemma index_get_inside:
  "0 \<le> p \<Longrightarrow> p < int (length index) \<Longrightarrow> index_get mem index p = index ! nat p"
  by (simp add: index_get_def)

lemma direction_memory:
  assumes "1 \<le> length index"
  shows "direction mem' index (int (length index)) = direction mem index (int (length index))"
proof -
  from assms have "0 \<le> int (length index) - 1" "int (length index) - 1 < int (length index)"
    "(0::int) \<le> 0" "0 < int (length index)"
    by auto
  then show ?thesis
    unfolding direction_def by (simp only: index_get_inside)
qed

lemma beyond_memory:
  assumes "0 \<le> si" "si < p" "p < int (length index)"
  shows "beyond mem' index idx_scalar span si p = beyond mem index idx_scalar span si p"
  using assms by (simp add: beyond_def index_get_inside)

lemma memory_independent:
  "calculate_variable_window_bounds mem' (int (length index)) window_size step_size_obj
     min_periods_obj center' closed index =
   calculate_variable_window_bounds mem (int (length index)) window_size step_size_obj
     min_periods_obj center closed index"
proof (rule calc_cong)
  show "0 \<le> int (length index)" by simp
next
  show "\<forall>si p. 0 \<le> si \<and> si < p \<and> p < int (length index) \<longrightarrow>
      beyond mem index (direction mem index (int (length index))) window_size si p =
      beyond mem' index (direction mem' index (int (length index))) window_size si p"
  proof (intro allI impI)
    fix si p assume a: "0 \<le> si \<and> si < p \<and> p < int (length index)"
    then have "1 \<le> length index" by auto
    with a show "beyond mem index (direction mem index (int (length index))) window_size si p =
      beyond mem' index (direction mem' index (int (length index))) window_size si p"
      by (simp add: direction_memory [of index mem' mem] beyond_memory [of si p index mem' _ _ mem])
  qed
next
  show "\<forall>si p. 0 \<le> si \<and> si < p \<and> p < int (length index) \<longrightarrow>
      beyond mem index (direction mem index (int (length index))) (step_size_of step_size_obj) si p =
      beyond mem' index (direction mem' index (int (length index))) (step_size_of step_size_obj) si p"
  proof (intro allI impI)
    fix si p assume a: "0 \<le> si \<and> si < p \<and> p < int (length index)"
    then have "1 \<le> length index" by auto
    with a show "beyond mem index (direction mem index (int (length index))) (step_size_of step_size_obj) si p =
      beyond mem' index (direction mem' index (int (length index))) (step_size_of step_size_obj) si p"
      by (simp add: direction_memory [of index mem' mem] beyond_memory [of si p index mem' _ _ mem])
  qed
qed

section \<open>Signed values of the slots\<close>

lemma sint_position:
  assumes "0 \<le> x" "x < 2 ^ 63"
  shows "sint (word_of_int x :: int64) = x"
  using assms by (simp add: signed_of_int signed_take_bit_int_eq_self)

lemma slot_cases:
  assumes inv: "sweep_inv num_values st"
    and slot: "slot \<in> set (zip (start_arr st) (end_arr st))"
  shows "fst slot = - 1 \<or>
    (\<exists>s e. slot = (word_of_int s, word_of_int e) \<and> 0 \<le> s \<and> s \<le> e \<and> e < num_values)"
proof -
  from inv have len: "length (start_arr st) = nat num_values" "length (end_arr st) = nat num_values"
    and written: "\<forall>k < nat (window_i st). \<exists>s e. start_arr st ! k = word_of_int s \<and>
          end_arr st ! k = word_of_int e \<and> 0 \<le> s \<and> s \<le> e \<and> e < num_values"
    and unwritten: "\<forall>k. nat (window_i st) \<le> k \<and> k < nat num_values \<longrightarrow> start_arr st ! k = - 1"
    by (simp_all add: sweep_inv_def)
  from slot obtain k where k: "k < nat num_values" "slot = (start_arr st ! k, end_arr st ! k)"
    using len by (auto simp: in_set_zip)
  show ?thesis
  proof (cases "k < nat (window_i st)")
    case True
    with written k show ?thesis by auto
  next
    case False
    with unwritten k show ?thesis by simp
  qed
qed

lemma valid_slot_written:
  assumes "0 \<le> s" "s \<le> e" "e < num_values" "num_values < 2 ^ 63"
  shows "valid_slot min_periods (word_of_int s, word_of_int e) =
         spec_valid min_periods (word_of_int s, word_of_int e)"
proof -
  have s: "sint (word_of_int s :: int64) = s" and e: "sint (word_of_int e :: int64) = e"
    using assms by (simp_all add: sint_position)
  have "(word_of_int e - word_of_int s + 1 :: int64) = word_of_int (e - s + 1)"
    by simp
  moreover have "sint (word_of_int (e - s + 1) :: int64) = e - s + 1"
    using assms by (intro sint_position) simp_all
  ultimately show ?thesis
    using assms by (simp add: valid_slot_def spec_valid_def word_sle_eq s e)
qed

lemma valid_slot_spec:
  assumes inv: "sweep_inv num_values st" and small: "num_values < 2 ^ 63"
    and slot: "slot \<in> set (zip (start_arr st) (end_arr st))"
  shows "valid_slot min_periods slot = spec_valid min_periods slot"
  using slot_cases [OF inv slot]
proof
  assume "fst slot = - 1"
  then show ?thesis
    by (cases slot) (simp add: not_valid_sentinel spec_valid_def)
next
  assume "\<exists>s e. slot = (word_of_int s, word_of_int e) \<and> 0 \<le> s \<and> s \<le> e \<and> e < num_values"
  with small show ?thesis
    by (auto simp: valid_slot_written)
qed

lemma valid_slot_range:
  assumes inv: "sweep_inv num_values st" and small: "num_values < 2 ^ 63"
    and slot: "slot \<in> set (zip (start_arr st) (end_arr st))"
    and valid: "valid_slot min_periods slot"
  shows "0 \<le> sint (fst slot) \<and> sint (fst slot) \<le> sint (snd slot) \<and> sint (snd slot) < num_values"
  using slot_cases [OF inv slot]
proof
  assume "fst slot = - 1"
  with valid show ?thesis
    by (cases slot) (simp add: not_valid_sentinel)
next
  assume "\<exists>s e. slot = (word_of_int s, word_of_int e) \<and> 0 \<le> s \<and> s \<le> e \<and> e < num_values"
  then obtain s e where "slot = (word_of_int s, word_of_int e)" "0 \<le> s" "s \<le> e" "e < num_values"
    by blast
  with small show ?thesis
    by (simp add: sint_position)
qed






section \<open>Concrete calls\<close>

lemmas eval_alloc = upt_rec eval_nat_numeral

lemmas eval_sweep = sweep.simps find_end.simps sweep_body_def Let_def

lemma eval_gap:
  "calculate_variable_window_bounds zero_memory 3 2 (Some 1) (Some 0) None (Some ''both'')
     [0, 1, 10] = Inr ([0, 1], [1, 2])"
  apply (simp add: calculate_variable_window_bounds_def index_get_def del: upt_Suc)
  apply (simp add: zero_memory_def eval_alloc)
  apply (simp add: eval_sweep index_get_def word_sless_alt)
  apply (simp add: select_def word_sle_eq)
  done

lemma eval_gap_left:
  "calculate_variable_window_bounds zero_memory 3 2 (Some 1) (Some 0) None (Some ''left'')
     [0, 1, 10] = Inr ([0, 1], [2, 3])"
  apply (simp add: calculate_variable_window_bounds_def index_get_def del: upt_Suc)
  apply (simp add: zero_memory_def eval_alloc)
  apply (simp add: eval_sweep index_get_def word_sless_alt)
  apply (simp add: select_def word_sle_eq)
  done

lemma eval_gap_swept:
  "window_i (swept zero_memory 3 2 (Some 1) [0, 1, 10]) = 2"
  apply (simp add: swept_def direction_def initial_state_def step_size_of_def index_get_def
      del: upt_Suc)
  apply (simp add: zero_memory_def eval_alloc)
  apply (simp add: eval_sweep index_get_def word_sless_alt)
  done


lemma eval_first_left:
  "calculate_variable_window_bounds mem 5 3 (Some 1) (Some 0) center (Some ''left'')
     [0, 1, 2, 3, 4] = Inr ([0, 1, 2], [3, 4, 5])"
  apply (simp add: calculate_variable_window_bounds_def index_get_def del: upt_Suc)
  apply (simp add: eval_alloc)
  apply (simp add: eval_sweep index_get_def word_sless_alt)
  apply (simp add: select_def word_sle_eq)
  done

lemma eval_first_both:
  "calculate_variable_window_bounds mem 5 3 (Some 1) (Some 0) center (Some ''both'')
     [0, 1, 2, 3, 4] = Inr ([0, 1, 2], [2, 3, 4])"
  apply (simp add: calculate_variable_window_bounds_def index_get_def del: upt_Suc)
  apply (simp add: eval_alloc)
  apply (simp add: eval_sweep index_get_def word_sless_alt)
  apply (simp add: select_def word_sle_eq)
  done

lemma eval_second:
  "calculate_variable_window_bounds mem 5 3 None (Some 3) center (Some ''both'')
     [0, 1, 2, 3, 4] = Inr ([0, 1, 2], [2, 3, 4])"
  apply (simp add: calculate_variable_window_bounds_def index_get_def del: upt_Suc)
  apply (simp add: eval_alloc)
  apply (simp add: eval_sweep index_get_def word_sless_alt)
  apply (simp add: select_def word_sle_eq)
  done

lemma eval_second_swept:
  "window_i (swept zero_memory 5 3 None [0, 1, 2, 3, 4]) = 3"
  apply (simp add: swept_def direction_def initial_state_def step_size_of_def index_get_def
      del: upt_Suc)
  apply (simp add: zero_memory_def eval_alloc)
  apply (simp add: eval_sweep index_get_def word_sless_alt)
  done





section \<open>The claims\<close>

text \<open>
  C1 (containment) fails on the code. The scan for the end of a window starts at
  \<open>next_index_ei + 1\<close>, so the position \<open>next_index_ei\<close> itself, the first one that
  was beyond the previous window, is never compared with the ceiling of the new window.
  For \<open>index = [0, 1, 10]\<close> and \<open>window_size = 2\<close> (\<open>closed = 'both'\<close>, so the
  returned bounds are the unadjusted ones) the second window is returned as positions
  \<open>1..2\<close>, whose index values \<open>1\<close> and \<open>10\<close> are \<open>9\<close> apart.
\<close>

theorem containment_broken_after_gap:
  "calculate_variable_window_bounds zero_memory 3 2 (Some 1) (Some 0) None (Some ''both'')
     [0, 1, 10] = Inr ([0, 1], [1, 2]) \<and>
   sint ([0, 1, 10 :: int64] ! 2) - sint ([0, 1, 10 :: int64] ! 1) = 9"
  using eval_gap by simp

text \<open>
  C2: the returned pair holds exactly the slots of the swept arrays whose unadjusted
  values satisfy \<open>start \<ge> 0\<close>, \<open>start \<le> end\<close> and \<open>end - start + 1 \<ge> min_periods\<close>
  (\<open>min_periods\<close> being \<open>0\<close> when unspecified), in their order; the other slots are left
  out, so the output is as long as the number of such slots. The index is any list that
  fits in memory (fewer than \<open>2^63\<close> values).
\<close>

theorem validity_filter:
  assumes "length index < 2 ^ 63"
  shows "calculate_variable_window_bounds mem (int (length index)) window_size step_size_obj
           min_periods_obj center closed index =
         Inr (map (\<lambda>slot. if left_open_of closed then fst slot - 1 else fst slot)
                (filter (spec_valid (min_periods_of min_periods_obj))
                   (zip (start_arr (swept mem (int (length index)) window_size step_size_obj index))
                        (end_arr (swept mem (int (length index)) window_size step_size_obj index)))),
              map (\<lambda>slot. if right_open_of closed then snd slot + 1 else snd slot)
                (filter (spec_valid (min_periods_of min_periods_obj))
                   (zip (start_arr (swept mem (int (length index)) window_size step_size_obj index))
                        (end_arr (swept mem (int (length index)) window_size step_size_obj index))))) \<and>
         min_periods_of None = 0"
proof -
  let ?st = "swept mem (int (length index)) window_size step_size_obj index"
  have inv: "sweep_inv (int (length index)) ?st"
    by (rule sweep_inv_swept) simp
  from assms have small: "int (length index) < 2 ^ 63"
    by (metis of_nat_less_iff of_nat_numeral of_nat_power)
  have "filter (valid_slot (min_periods_of min_periods_obj)) (zip (start_arr ?st) (end_arr ?st)) =
        filter (spec_valid (min_periods_of min_periods_obj)) (zip (start_arr ?st) (end_arr ?st))"
    by (rule filter_cong [OF refl]) (rule valid_slot_spec [OF inv small])
  then show ?thesis
    by (simp add: calc_unfold min_periods_of_def)
qed

theorem validity_filter_witness:
  "length [0, 1, 2, 3, 4 :: int64] < 2 ^ 63 \<and>
   map fst (filter (spec_valid 3)
      (zip (start_arr (swept zero_memory 5 3 None [0, 1, 2, 3, 4]))
           (end_arr (swept zero_memory 5 3 None [0, 1, 2, 3, 4])))) = [0, 1, 2] \<and>
   map snd (filter (spec_valid 3)
      (zip (start_arr (swept zero_memory 5 3 None [0, 1, 2, 3, 4]))
           (end_arr (swept zero_memory 5 3 None [0, 1, 2, 3, 4])))) = [2, 3, 4]"
proof -
  have small: "length [0, 1, 2, 3, 4 :: int64] < 2 ^ 63" by simp
  from validity_filter [OF small, of zero_memory 3 None "Some 3" None "Some ''both''"]
  show ?thesis
    by (simp add: eval_second left_open_of_def right_open_of_def closed_of_def
        min_periods_of_def)
qed

text \<open>
  C3: an unspecified \<open>closed\<close> is \<open>'left'\<close>; \<open>right_open\<close> holds exactly when
  \<open>closed\<close> is neither \<open>'right'\<close> nor \<open>'both'\<close>, \<open>left_open\<close> exactly when it is neither
  \<open>'left'\<close> nor \<open>'both'\<close>. The slots that survive are chosen by the validity test on
  the unadjusted bounds (they are what \<open>closed = 'both'\<close> returns); the call returns
  their starts, each less one when \<open>left_open\<close>, and their ends, each plus one when
  \<open>right_open\<close>, and changes nothing else.
\<close>

theorem open_boundaries:
  "closed_of None = ''left'' \<and>
   right_open_of closed = (closed_of closed \<noteq> ''right'' \<and> closed_of closed \<noteq> ''both'') \<and>
   left_open_of closed = (closed_of closed \<noteq> ''left'' \<and> closed_of closed \<noteq> ''both'') \<and>
   calculate_variable_window_bounds mem (int (length index)) window_size step_size_obj
     min_periods_obj center (Some ''both'') index =
   Inr (map fst (filter (valid_slot (min_periods_of min_periods_obj))
          (zip (start_arr (swept mem (int (length index)) window_size step_size_obj index))
               (end_arr (swept mem (int (length index)) window_size step_size_obj index)))),
        map snd (filter (valid_slot (min_periods_of min_periods_obj))
          (zip (start_arr (swept mem (int (length index)) window_size step_size_obj index))
               (end_arr (swept mem (int (length index)) window_size step_size_obj index))))) \<and>
   calculate_variable_window_bounds mem (int (length index)) window_size step_size_obj
     min_periods_obj center closed index =
   Inr (map (\<lambda>slot. if left_open_of closed then fst slot - 1 else fst slot)
          (filter (valid_slot (min_periods_of min_periods_obj))
             (zip (start_arr (swept mem (int (length index)) window_size step_size_obj index))
                  (end_arr (swept mem (int (length index)) window_size step_size_obj index)))),
        map (\<lambda>slot. if right_open_of closed then snd slot + 1 else snd slot)
          (filter (valid_slot (min_periods_of min_periods_obj))
             (zip (start_arr (swept mem (int (length index)) window_size step_size_obj index))
                  (end_arr (swept mem (int (length index)) window_size step_size_obj index)))))"
proof -
  have "\<not> left_open_of (Some ''both'')" "\<not> right_open_of (Some ''both'')"
    by (simp_all add: left_open_of_def right_open_of_def closed_of_def)
  then have "calculate_variable_window_bounds mem (int (length index)) window_size step_size_obj
     min_periods_obj center (Some ''both'') index =
   Inr (map fst (filter (valid_slot (min_periods_of min_periods_obj))
          (zip (start_arr (swept mem (int (length index)) window_size step_size_obj index))
               (end_arr (swept mem (int (length index)) window_size step_size_obj index)))),
        map snd (filter (valid_slot (min_periods_of min_periods_obj))
          (zip (start_arr (swept mem (int (length index)) window_size step_size_obj index))
               (end_arr (swept mem (int (length index)) window_size step_size_obj index)))))"
    by (simp add: calc_unfold)
  moreover have "closed_of None = ''left''"
    "right_open_of closed = (closed_of closed \<noteq> ''right'' \<and> closed_of closed \<noteq> ''both'')"
    "left_open_of closed = (closed_of closed \<noteq> ''left'' \<and> closed_of closed \<noteq> ''both'')"
    by (simp_all add: left_open_of_def right_open_of_def closed_of_def)
  moreover have "calculate_variable_window_bounds mem (int (length index)) window_size
     step_size_obj min_periods_obj center closed index =
   Inr (map (\<lambda>slot. if left_open_of closed then fst slot - 1 else fst slot)
          (filter (valid_slot (min_periods_of min_periods_obj))
             (zip (start_arr (swept mem (int (length index)) window_size step_size_obj index))
                  (end_arr (swept mem (int (length index)) window_size step_size_obj index)))),
        map (\<lambda>slot. if right_open_of closed then snd slot + 1 else snd slot)
          (filter (valid_slot (min_periods_of min_periods_obj))
             (zip (start_arr (swept mem (int (length index)) window_size step_size_obj index))
                  (end_arr (swept mem (int (length index)) window_size step_size_obj index)))))"
    by (rule calc_unfold) simp
  ultimately show ?thesis by blast
qed

theorem open_boundaries_witness:
  "calculate_variable_window_bounds zero_memory 5 3 None (Some 3) None (Some ''neither'')
     [0, 1, 2, 3, 4] = Inr (map (\<lambda>s. s - 1) [0, 1, 2], map (\<lambda>e. e + 1) [2, 3, 4])"
proof -
  let ?kept = "filter (valid_slot (min_periods_of (Some 3)))
          (zip (start_arr (swept zero_memory 5 3 None [0, 1, 2, 3, 4]))
               (end_arr (swept zero_memory 5 3 None [0, 1, 2, 3, 4])))"
  have flags: "left_open_of (Some ''neither'')" "right_open_of (Some ''neither'')"
    by (simp_all add: left_open_of_def right_open_of_def closed_of_def)
  from open_boundaries [of "Some ''neither''" zero_memory "[0, 1, 2, 3, 4]" 3 None "Some 3" None]
  have both: "calculate_variable_window_bounds zero_memory 5 3 None (Some 3) None (Some ''both'')
       [0, 1, 2, 3, 4] = Inr (map fst ?kept, map snd ?kept)"
    and neither: "calculate_variable_window_bounds zero_memory 5 3 None (Some 3) None
       (Some ''neither'') [0, 1, 2, 3, 4] =
       Inr (map (\<lambda>slot. fst slot - 1) ?kept, map (\<lambda>slot. snd slot + 1) ?kept)"
    using flags by simp_all
  from both have kept: "map fst ?kept = [0, 1, 2]" "map snd ?kept = [2, 3, 4]"
    by (simp_all add: eval_second)
  have "map (\<lambda>slot. fst slot - 1) ?kept = map (\<lambda>s. s - 1) (map fst ?kept)"
    "map (\<lambda>slot. snd slot + 1) ?kept = map (\<lambda>e. e + 1) (map snd ?kept)"
    by (simp_all add: o_def)
  with neither show ?thesis
    by (simp only: kept)
qed




text \<open>
  C5, as stated, fails: the returned \<open>start\<close> is not \<open>[0, 1, 2, 3, 4]\<close>.
\<close>

theorem scenario_one_start_is_shorter:
  "map_sum id fst
     (calculate_variable_window_bounds zero_memory 5 3 (Some 1) (Some 0) None (Some ''left'')
        [0, 1, 2, 3, 4]) \<noteq> Inr [0, 1, 2, 3, 4]"
  by (simp add: eval_first_left)

text \<open>
  C5, amended: for \<open>index = [0, 1, 2, 3, 4]\<close>, \<open>window_size = 3\<close>, \<open>step_size = 1\<close>,
  \<open>min_periods = 0\<close> and \<open>closed = 'left'\<close> the call returns \<open>start = [0, 1, 2]\<close> and
  \<open>end = [3, 4, 5]\<close>: three windows, since the sweep stops as soon as a window reaches
  the last position. Window \<open>i\<close> covers the positions \<open>i..i+2\<close> (the bounds returned
  for \<open>closed = 'both'\<close>, which are not adjusted), \<open>left_open\<close> is false and
  \<open>right_open\<close> is true, so every returned end is the inclusive end plus one.
\<close>

theorem scenario_one:
  "calculate_variable_window_bounds mem 5 3 (Some 1) (Some 0) center (Some ''left'')
     [0, 1, 2, 3, 4] = Inr ([0, 1, 2], [3, 4, 5]) \<and>
   calculate_variable_window_bounds mem 5 3 (Some 1) (Some 0) center (Some ''both'')
     [0, 1, 2, 3, 4] = Inr ([0, 1, 2], [2, 3, 4]) \<and>
   \<not> left_open_of (Some ''left'') \<and> right_open_of (Some ''left'')"
  by (simp add: eval_first_left eval_first_both left_open_of_def right_open_of_def
      closed_of_def)

theorem scenario_one_witness:
  "calculate_variable_window_bounds zero_memory 5 3 (Some 1) (Some 0) None (Some ''left'')
     [0, 1, 2, 3, 4] = Inr ([0, 1, 2], [3, 4, 5])"
  using scenario_one [of zero_memory None] by (rule conjunct1)

text \<open>
  C6: a call with \<open>num_values = 0\<close> raises nothing and returns two empty sequences,
  whatever the other arguments are and whatever the reads of \<open>index[-1]\<close> and
  \<open>index[0]\<close>, which come before the test of \<open>num_values\<close>, find in memory.
\<close>

theorem empty_input:
  "calculate_variable_window_bounds mem 0 window_size step_size_obj min_periods_obj center closed
     index = Inr ([], [])"
  by (simp add: calculate_variable_window_bounds_def)

theorem empty_input_witness:
  "calculate_variable_window_bounds zero_memory 0 3 None None None None [] = Inr ([], [])"
  by (rule empty_input)

text \<open>
  C7: the two returned sequences have the same length, and every returned pair, with
  the boundary adjustment undone, satisfies \<open>0 \<le> start \<le> end < N\<close>. The index is any
  list that fits in memory; it need not be monotonic.
\<close>

theorem retained_bounds_in_range:
  assumes "length index < 2 ^ 63"
  shows "\<exists>starts ends.
     calculate_variable_window_bounds mem (int (length index)) window_size step_size_obj
       min_periods_obj center closed index = Inr (starts, ends) \<and>
     length starts = length ends \<and>
     (\<forall>i < length starts.
        0 \<le> sint (starts ! i + (if left_open_of closed then 1 else 0)) \<and>
        sint (starts ! i + (if left_open_of closed then 1 else 0))
          \<le> sint (ends ! i - (if right_open_of closed then 1 else 0)) \<and>
        sint (ends ! i - (if right_open_of closed then 1 else 0)) < int (length index))"
proof -
  let ?st = "swept mem (int (length index)) window_size step_size_obj index"
  let ?kept = "filter (valid_slot (min_periods_of min_periods_obj))
     (zip (start_arr ?st) (end_arr ?st))"
  let ?starts = "map (\<lambda>slot. if left_open_of closed then fst slot - 1 else fst slot) ?kept"
  let ?ends = "map (\<lambda>slot. if right_open_of closed then snd slot + 1 else snd slot) ?kept"
  have inv: "sweep_inv (int (length index)) ?st"
    by (rule sweep_inv_swept) simp
  from assms have small: "int (length index) < 2 ^ 63"
    by (metis of_nat_less_iff of_nat_numeral of_nat_power)
  have result: "calculate_variable_window_bounds mem (int (length index)) window_size
      step_size_obj min_periods_obj center closed index = Inr (?starts, ?ends)"
    by (simp add: calc_unfold)
  have "0 \<le> sint (?starts ! i + (if left_open_of closed then 1 else 0)) \<and>
        sint (?starts ! i + (if left_open_of closed then 1 else 0))
          \<le> sint (?ends ! i - (if right_open_of closed then 1 else 0)) \<and>
        sint (?ends ! i - (if right_open_of closed then 1 else 0)) < int (length index)"
    if "i < length ?starts" for i
  proof -
    from that have i: "i < length ?kept" by simp
    then have "?kept ! i \<in> set ?kept" by (rule nth_mem)
    then have slot: "?kept ! i \<in> set (zip (start_arr ?st) (end_arr ?st))"
      and valid: "valid_slot (min_periods_of min_periods_obj) (?kept ! i)"
      by simp_all
    have s: "?starts ! i + (if left_open_of closed then 1 else 0) = fst (?kept ! i)"
      using i by simp
    have e: "?ends ! i - (if right_open_of closed then 1 else 0) = snd (?kept ! i)"
      using i by simp
    from valid_slot_range [OF inv small slot valid] show ?thesis
      unfolding s e .
  qed
  with result show ?thesis
    by (intro exI [of _ ?starts] exI [of _ ?ends]) simp
qed

theorem retained_bounds_in_range_witness:
  "length [0, 1, 10 :: int64] < 2 ^ 63 \<and>
   (\<exists>starts ends.
     calculate_variable_window_bounds zero_memory 3 2 (Some 1) (Some 0) None (Some ''left'')
       [0, 1, 10] = Inr (starts, ends) \<and>
     length starts = length ends \<and>
     0 \<le> sint (starts ! 1) \<and> sint (starts ! 1) \<le> sint (ends ! 1 - 1) \<and> sint (ends ! 1 - 1) < 3)"
proof -
  have small: "length [0, 1, 10 :: int64] < 2 ^ 63" by simp
  have flags: "\<not> left_open_of (Some ''left'')" "right_open_of (Some ''left'')"
    by (simp_all add: left_open_of_def right_open_of_def closed_of_def)
  from retained_bounds_in_range [OF small, of zero_memory 2 "Some 1" "Some 0" None "Some ''left''"]
  obtain starts ends where
    r: "calculate_variable_window_bounds zero_memory 3 2 (Some 1) (Some 0) None (Some ''left'')
       [0, 1, 10] = Inr (starts, ends)" "length starts = length ends"
    and each: "\<forall>i < length starts.
        0 \<le> sint (starts ! i + (if left_open_of (Some ''left'') then 1 else 0)) \<and>
        sint (starts ! i + (if left_open_of (Some ''left'') then 1 else 0))
          \<le> sint (ends ! i - (if right_open_of (Some ''left'') then 1 else 0)) \<and>
        sint (ends ! i - (if right_open_of (Some ''left'') then 1 else 0)) < int (length [0, 1, 10 :: int64])"
    by auto
  from r have "length starts = 2" by (auto simp: eval_gap_left)
  with each have "0 \<le> sint (starts ! 1) \<and> sint (starts ! 1) \<le> sint (ends ! 1 - 1) \<and>
      sint (ends ! 1 - 1) < 3"
    using flags by (auto dest!: spec [of _ 1])
  with r small show ?thesis by blast
qed




text \<open>
  C9: the sweep terminates. The loop of a call runs some number \<open>k \<le> num_values\<close> of
  iterations and then leaves (\<open>next_index_ei \<ge> num_values\<close>); \<open>window_i\<close> counts the
  iterations, so it never exceeds \<open>num_values\<close>, and in iteration \<open>j\<close> the slot
  written is \<open>j < num_values\<close>. In every iteration both \<open>next_index_ei\<close> and
  \<open>next_index_si\<close> grow by at least one. Neither a monotonic index nor a positive
  step size is needed for this.
\<close>

theorem sweep_terminates:
  "\<exists>k \<le> nat num_values.
     swept mem num_values window_size step_size_obj index =
       iterations mem num_values window_size step_size_obj index k \<and>
     window_i (swept mem num_values window_size step_size_obj index) = int k \<and>
     num_values \<le> next_index_ei (swept mem num_values window_size step_size_obj index) \<and>
     (\<forall>j<k.
        window_i (iterations mem num_values window_size step_size_obj index j) = int j \<and>
        next_index_ei (iterations mem num_values window_size step_size_obj index j) < num_values \<and>
        next_index_ei (iterations mem num_values window_size step_size_obj index j) + 1
          \<le> next_index_ei (iterations mem num_values window_size step_size_obj index (Suc j)) \<and>
        next_index_si (iterations mem num_values window_size step_size_obj index j) + 1
          \<le> next_index_si (iterations mem num_values window_size step_size_obj index (Suc j)))"
proof (cases "0 \<le> num_values")
  case False
  then have "swept mem num_values window_size step_size_obj index =
      iterations mem num_values window_size step_size_obj index 0"
    by (simp add: swept_def iterations_def sweep_initial_empty)
  moreover have "window_i (iterations mem num_values window_size step_size_obj index 0) = 0"
    "next_index_ei (iterations mem num_values window_size step_size_obj index 0) = 0"
    by (simp_all add: iterations_def initial_state_def)
  ultimately show ?thesis
    using False by (intro exI [of _ 0]) simp
next
  case True
  let ?body = "sweep_body mem index (direction mem index num_values) num_values window_size
        (step_size_of step_size_obj)"
  let ?it = "iterations mem num_values window_size step_size_obj index"
  let ?end = "swept mem num_values window_size step_size_obj index"
  have it_Suc: "?it (Suc j) = ?body (?it j)" for j
    by (simp add: iterations_def)
  from sweep_funpow [where st = "initial_state mem num_values" and mem = mem and index = index
      and idx_scalar = "direction mem index num_values" and window_size = window_size
      and step_size = "step_size_of step_size_obj", OF sweep_inv_initial [OF True]]
  obtain k where k: "int k \<le> num_values"
    and run: "?end = ?it k"
    and each: "\<forall>j<k. sweep_inv num_values (?it j) \<and> next_index_ei (?it j) < num_values \<and>
        window_i (?it j) = int j"
    by (auto simp: swept_def iterations_def initial_state_def Let_def)
  have count: "window_i (?it j) = int j" for j
    by (induction j) (simp_all add: iterations_def initial_state_def sweep_body_fields)
  have "k \<le> nat num_values" using k by simp
  moreover have "window_i ?end = int k" using run count by simp
  moreover have "num_values \<le> next_index_ei ?end"
    unfolding swept_def by (rule sweep_exit)
  moreover have "\<forall>j<k. window_i (?it j) = int j \<and> next_index_ei (?it j) < num_values \<and>
      next_index_ei (?it j) + 1 \<le> next_index_ei (?it (Suc j)) \<and>
      next_index_si (?it j) + 1 \<le> next_index_si (?it (Suc j))"
  proof (intro allI impI)
    fix j assume "j < k"
    with each have inv: "sweep_inv num_values (?it j)" and lt: "next_index_ei (?it j) < num_values"
      by simp_all
    have "next_index_ei (?it j) + 1 \<le> next_index_ei (?it (Suc j))"
      using next_index_ei_sweep_body [OF lt, of mem index "direction mem index num_values"
          window_size "step_size_of step_size_obj"]
      unfolding it_Suc by simp
    moreover have "next_index_si (?it j) + 1 \<le> next_index_si (?it (Suc j))"
      using next_index_si_sweep_body [OF inv lt, of mem index "direction mem index num_values"
          window_size "step_size_of step_size_obj"]
      unfolding it_Suc by simp
    ultimately show "window_i (?it j) = int j \<and> next_index_ei (?it j) < num_values \<and>
      next_index_ei (?it j) + 1 \<le> next_index_ei (?it (Suc j)) \<and>
      next_index_si (?it j) + 1 \<le> next_index_si (?it (Suc j))"
      using count lt by simp
  qed
  ultimately show ?thesis
    using run by blast
qed

theorem sweep_terminates_witness:
  "window_i (swept zero_memory 3 2 (Some 1) [0, 1, 10]) = 2 \<and>
   window_i (iterations zero_memory 3 2 (Some 1) [0, 1, 10] 1) = 1 \<and>
   next_index_ei (iterations zero_memory 3 2 (Some 1) [0, 1, 10] 1) < 3 \<and>
   next_index_ei (iterations zero_memory 3 2 (Some 1) [0, 1, 10] 1) + 1
     \<le> next_index_ei (iterations zero_memory 3 2 (Some 1) [0, 1, 10] (Suc 1)) \<and>
   next_index_si (iterations zero_memory 3 2 (Some 1) [0, 1, 10] 1) + 1
     \<le> next_index_si (iterations zero_memory 3 2 (Some 1) [0, 1, 10] (Suc 1))"
proof -
  from sweep_terminates [of 3 zero_memory 2 "Some 1" "[0, 1, 10]"]
  obtain k where count: "window_i (swept zero_memory 3 2 (Some 1) [0, 1, 10]) = int k"
    and each: "\<forall>j<k.
        window_i (iterations zero_memory 3 2 (Some 1) [0, 1, 10] j) = int j \<and>
        next_index_ei (iterations zero_memory 3 2 (Some 1) [0, 1, 10] j) < 3 \<and>
        next_index_ei (iterations zero_memory 3 2 (Some 1) [0, 1, 10] j) + 1
          \<le> next_index_ei (iterations zero_memory 3 2 (Some 1) [0, 1, 10] (Suc j)) \<and>
        next_index_si (iterations zero_memory 3 2 (Some 1) [0, 1, 10] j) + 1
          \<le> next_index_si (iterations zero_memory 3 2 (Some 1) [0, 1, 10] (Suc j))"
    by blast
  from count have "k = 2" by (simp add: eval_gap_swept)
  with each [THEN spec, of 1] show ?thesis
    by (simp add: eval_gap_swept)
qed

text \<open>
  C10: no sentinel and no uninitialised value is returned. Before the sweep \<open>start\<close>
  holds \<open>-1\<close> everywhere and \<open>end\<close> whatever the allocator left. After the sweep the slots
  from \<open>window_i\<close> on still hold \<open>start = -1\<close> and fail the validity test; the slots
  below \<open>window_i\<close>, one per iteration, hold positions \<open>0 \<le> start \<le> end < N\<close> written
  by the loop; the returned bounds are taken from the slots below \<open>window_i\<close> only, and
  they do not depend on what the uninitialised \<open>end\<close> array held.
\<close>

theorem sentinel_never_returned:
  "start_arr (initial_state mem (int (length index))) = replicate (length index) (- 1) \<and>
   end_arr (initial_state mem (int (length index))) = map (fresh mem) [0..<length index] \<and>
   nat (window_i (swept mem (int (length index)) window_size step_size_obj index)) \<le> length index \<and>
   (\<forall>k. nat (window_i (swept mem (int (length index)) window_size step_size_obj index)) \<le> k \<and>
        k < length index \<longrightarrow>
      start_arr (swept mem (int (length index)) window_size step_size_obj index) ! k = - 1 \<and>
      \<not> valid_slot (min_periods_of min_periods_obj)
          (start_arr (swept mem (int (length index)) window_size step_size_obj index) ! k,
           end_arr (swept mem (int (length index)) window_size step_size_obj index) ! k)) \<and>
   (\<forall>k < nat (window_i (swept mem (int (length index)) window_size step_size_obj index)).
      \<exists>s e. start_arr (swept mem (int (length index)) window_size step_size_obj index) ! k
               = word_of_int s \<and>
            end_arr (swept mem (int (length index)) window_size step_size_obj index) ! k
               = word_of_int e \<and>
            0 \<le> s \<and> s \<le> e \<and> e < int (length index)) \<and>
   calculate_variable_window_bounds mem (int (length index)) window_size step_size_obj
     min_periods_obj center closed index =
   Inr (map (\<lambda>slot. if left_open_of closed then fst slot - 1 else fst slot)
          (filter (valid_slot (min_periods_of min_periods_obj))
             (take (nat (window_i (swept mem (int (length index)) window_size step_size_obj index)))
                (zip (start_arr (swept mem (int (length index)) window_size step_size_obj index))
                     (end_arr (swept mem (int (length index)) window_size step_size_obj index))))),
        map (\<lambda>slot. if right_open_of closed then snd slot + 1 else snd slot)
          (filter (valid_slot (min_periods_of min_periods_obj))
             (take (nat (window_i (swept mem (int (length index)) window_size step_size_obj index)))
                (zip (start_arr (swept mem (int (length index)) window_size step_size_obj index))
                     (end_arr (swept mem (int (length index)) window_size step_size_obj index)))))) \<and>
   calculate_variable_window_bounds (mem\<lparr>fresh := junk\<rparr>) (int (length index)) window_size
     step_size_obj min_periods_obj center closed index =
   calculate_variable_window_bounds mem (int (length index)) window_size step_size_obj
     min_periods_obj center closed index"
proof -
  let ?st = "swept mem (int (length index)) window_size step_size_obj index"
  have inv: "sweep_inv (int (length index)) ?st"
    by (rule sweep_inv_swept) simp
  then have "window_i ?st \<le> next_index_ei ?st" "next_index_ei ?st \<le> int (length index)"
    by (simp_all add: sweep_inv_def)
  then have w: "nat (window_i ?st) \<le> length index"
    by linarith
  from inv have written: "\<forall>k < nat (window_i ?st). \<exists>s e. start_arr ?st ! k = word_of_int s \<and>
          end_arr ?st ! k = word_of_int e \<and> 0 \<le> s \<and> s \<le> e \<and> e < int (length index)"
    and unwritten: "\<forall>k. nat (window_i ?st) \<le> k \<and> k < length index \<longrightarrow> start_arr ?st ! k = - 1"
    by (simp_all add: sweep_inv_def)
  from unwritten have sentinel: "\<forall>k. nat (window_i ?st) \<le> k \<and> k < length index \<longrightarrow>
      start_arr ?st ! k = - 1 \<and>
      \<not> valid_slot (min_periods_of min_periods_obj) (start_arr ?st ! k, end_arr ?st ! k)"
    by (simp add: not_valid_sentinel)
  have result: "calculate_variable_window_bounds mem (int (length index)) window_size
      step_size_obj min_periods_obj center closed index =
    Inr (map (\<lambda>slot. if left_open_of closed then fst slot - 1 else fst slot)
          (filter (valid_slot (min_periods_of min_periods_obj))
             (take (nat (window_i ?st)) (zip (start_arr ?st) (end_arr ?st)))),
        map (\<lambda>slot. if right_open_of closed then snd slot + 1 else snd slot)
          (filter (valid_slot (min_periods_of min_periods_obj))
             (take (nat (window_i ?st)) (zip (start_arr ?st) (end_arr ?st)))))"
    by (simp add: calc_unfold unwritten_invalid [OF inv, symmetric])
  have "calculate_variable_window_bounds (mem\<lparr>fresh := junk\<rparr>) (int (length index)) window_size
     step_size_obj min_periods_obj center closed index =
   calculate_variable_window_bounds mem (int (length index)) window_size step_size_obj
     min_periods_obj center closed index"
    by (rule memory_independent)
  moreover have "start_arr (initial_state mem (int (length index))) = replicate (length index) (- 1)"
    "end_arr (initial_state mem (int (length index))) = map (fresh mem) [0..<length index]"
    by (simp_all add: initial_state_def)
  ultimately show ?thesis
    using w sentinel written result by blast
qed

theorem sentinel_never_returned_witness:
  "start_arr (swept zero_memory 5 3 None [0, 1, 2, 3, 4]) ! 3 = - 1 \<and>
   \<not> valid_slot 0 (start_arr (swept zero_memory 5 3 None [0, 1, 2, 3, 4]) ! 3,
                  end_arr (swept zero_memory 5 3 None [0, 1, 2, 3, 4]) ! 3)"
proof -
  have five: "length [0, 1, 2, 3, 4 :: int64] = 5"
    by simp
  note inst = sentinel_never_returned [where mem = zero_memory and index = "[0, 1, 2, 3, 4]"
      and window_size = 3 and step_size_obj = None and min_periods_obj = None
      and center = None and closed = None and junk = "fresh zero_memory", unfolded five of_nat_numeral]
  from inst [THEN conjunct2, THEN conjunct2, THEN conjunct2, THEN conjunct1, THEN spec, of 3]
  have "nat (window_i (swept zero_memory 5 3 None [0, 1, 2, 3, 4])) \<le> 3 \<and> (3::nat) < 5
      \<longrightarrow> start_arr (swept zero_memory 5 3 None [0, 1, 2, 3, 4]) ! 3 = - 1 \<and>
      \<not> valid_slot (min_periods_of None)
          (start_arr (swept zero_memory 5 3 None [0, 1, 2, 3, 4]) ! 3,
           end_arr (swept zero_memory 5 3 None [0, 1, 2, 3, 4]) ! 3)" .
  then show ?thesis
    by (simp add: eval_second_swept min_periods_of_def not_valid_sentinel)
qed

end
